theory Spec2Isabelle
  imports Main
begin

section \<open>Shared types\<close>

text \<open>
  \<open>frame_id_t\<close> and \<open>page_id_t\<close> are signed 32-bit integers in the source. Every
  value the model computes from them is a list index or a counter bounded by the pool size,
  so they are modelled as \<open>int\<close>; \<open>static_cast<int>(v.size())\<close> is \<open>int (length v)\<close>.

  Indexing a \<open>std::vector\<close> or the frame array outside \<open>[0, size)\<close> is undefined
  behaviour in C++. The model makes it a value: \<open>Inl OutOfBounds\<close>.
\<close>

type_synonym frame_id_t = int
type_synonym page_id_t = int

datatype error = OutOfBounds

definition in_range :: "'a list \<Rightarrow> int \<Rightarrow> bool" where
  "in_range xs i \<longleftrightarrow> 0 \<le> i \<and> i < int (length xs)"

section \<open>ClockReplacer (src/buffer/clock_replacer.cpp)\<close>

text \<open>
  The members of the class. \<open>pins_states[i] = true\<close> means frame \<open>i\<close> is pinned (not
  evictable); \<open>access_states[i]\<close> is the reference bit; \<open>clock_pointer\<close> is the hand;
  \<open>victimized_size\<close> counts the evictable frames.
\<close>

record ClockReplacer =
  access_states :: "bool list"
  pins_states :: "bool list"
  clock_pointer :: int
  victimized_size :: int

text \<open>
  The constructor resizes both vectors to \<open>num_pages\<close> and fills them with
  \<open>pins_states[i] = true\<close>, \<open>access_states[i] = false\<close>.

  Modelled from the spec: the in-class initialisers of \<open>clock_pointer\<close> and
  \<open>victimized_size\<close> are in clock_replacer.h, which is not among the sources. The spec
  starts every frame as pinned with the reference bit clear, so no frame is evictable and
  the count is 0; the hand starts at position 0.
\<close>

definition ClockReplacer_new :: "nat \<Rightarrow> ClockReplacer" where
  "ClockReplacer_new num_pages =
     \<lparr>access_states = replicate num_pages False,
      pins_states = replicate num_pages True,
      clock_pointer = 0,
      victimized_size = 0\<rparr>"

text \<open>
  One iteration of the \<open>while (true)\<close> loop of \<open>Victim\<close>: it either goes round again
  with a new state, or returns the selected frame, or indexes a vector out of bounds.
\<close>

datatype victim_step =
    Continue ClockReplacer
  | Selected frame_id_t ClockReplacer
  | Fault error

definition victim_body :: "ClockReplacer \<Rightarrow> victim_step" where
  "victim_body r =
     (let cp = (if clock_pointer r \<ge> int (length (pins_states r)) then 0 else clock_pointer r)
      in if \<not> in_range (pins_states r) cp then Fault OutOfBounds
         else if \<not> pins_states r ! nat cp then
           (if \<not> in_range (access_states r) cp then Fault OutOfBounds
            else if \<not> access_states r ! nat cp then
              Selected cp
                (r\<lparr>pins_states := (pins_states r)[nat cp := True],
                   victimized_size := victimized_size r - 1,
                   clock_pointer := cp + 1\<rparr>)
            else
              Continue
                (r\<lparr>access_states := (access_states r)[nat cp := False],
                   clock_pointer := cp + 1\<rparr>))
         else Continue (r\<lparr>clock_pointer := cp + 1\<rparr>))"

text \<open>
  The loop itself has no exit but the \<open>return true\<close> inside it, so it is a partial
  function: \<open>None\<close> is "never returns".
\<close>

partial_function (option) victim_loop :: "ClockReplacer \<Rightarrow> (error + frame_id_t \<times> ClockReplacer) option" where
  "victim_loop r =
     (case victim_body r of
        Fault e \<Rightarrow> Some (Inl e)
      | Selected f r' \<Rightarrow> Some (Inr (f, r'))
      | Continue r' \<Rightarrow> victim_loop r')"

text \<open>
  The same loop cut off after \<open>k\<close> iterations; it only serves to count iterations
  (\<open>None\<close> here is "did not return within \<open>k\<close> iterations").
\<close>

fun victim_within :: "nat \<Rightarrow> ClockReplacer \<Rightarrow> (error + frame_id_t \<times> ClockReplacer) option" where
  "victim_within 0 r = None"
| "victim_within (Suc k) r =
     (case victim_body r of
        Fault e \<Rightarrow> Some (Inl e)
      | Selected f r' \<Rightarrow> Some (Inr (f, r'))
      | Continue r' \<Rightarrow> victim_within k r')"

text \<open>
  \<open>bool Victim(frame_id_t *frame_id)\<close>: the result \<open>false\<close> is \<open>None\<close> in the first
  component, \<open>true\<close> with \<open>*frame_id = f\<close> is \<open>Some f\<close>.
\<close>

definition Victim :: "ClockReplacer \<Rightarrow> (error + frame_id_t option \<times> ClockReplacer) option" where
  "Victim r =
     (if victimized_size r = 0 then Some (Inr (None, r))
      else (case victim_loop r of
              None \<Rightarrow> None
            | Some (Inl e) \<Rightarrow> Some (Inl e)
            | Some (Inr (f, r')) \<Rightarrow> Some (Inr (Some f, r'))))"

definition Pin :: "ClockReplacer \<Rightarrow> frame_id_t \<Rightarrow> error + ClockReplacer" where
  "Pin r frame_id =
     (if frame_id < int (length (pins_states r)) then
        (if \<not> in_range (pins_states r) frame_id then Inl OutOfBounds
         else if \<not> pins_states r ! nat frame_id then
           Inr (r\<lparr>pins_states := (pins_states r)[nat frame_id := True],
                  victimized_size := victimized_size r - 1\<rparr>)
         else Inr r)
      else Inr r)"

definition Unpin :: "ClockReplacer \<Rightarrow> frame_id_t \<Rightarrow> error + ClockReplacer" where
  "Unpin r frame_id =
     (if frame_id < int (length (pins_states r)) then
        (if \<not> in_range (pins_states r) frame_id then Inl OutOfBounds
         else
           (let r1 = (if pins_states r ! nat frame_id
                      then r\<lparr>pins_states := (pins_states r)[nat frame_id := False],
                             victimized_size := victimized_size r + 1\<rparr>
                      else r)
            in if \<not> in_range (access_states r1) frame_id then Inl OutOfBounds
               else Inr (r1\<lparr>access_states := (access_states r1)[nat frame_id := True]\<rparr>)))
      else Inr r)"

definition Size :: "ClockReplacer \<Rightarrow> int" where
  "Size r = victimized_size r"

section \<open>The disk manager and the page frames\<close>

text \<open>
  Modelled from the spec: the disk manager is an external collaborator (disk_manager.h is not
  among the sources); the spec gives its contract. \<open>WritePage\<close> persists the buffer under
  the identifier, \<open>ReadPage\<close> fills the buffer with what is stored, \<open>AllocatePage\<close> returns
  a fresh identifier, \<open>DeallocatePage\<close> marks an identifier reusable. The model is the mock
  the spec's scenarios use: it also records every \<open>WritePage\<close> call, oldest first, and the
  identifiers deallocated.
\<close>

record DiskManager =
  stored :: "page_id_t \<Rightarrow> nat list"
  next_page_id :: page_id_t
  written :: "(page_id_t \<times> nat list) list"
  deallocated :: "page_id_t list"

definition WritePage :: "DiskManager \<Rightarrow> page_id_t \<Rightarrow> nat list \<Rightarrow> DiskManager" where
  "WritePage d pid buf = d\<lparr>stored := (stored d)(pid := buf), written := written d @ [(pid, buf)]\<rparr>"

definition ReadPage :: "DiskManager \<Rightarrow> page_id_t \<Rightarrow> nat list" where
  "ReadPage d pid = stored d pid"

definition AllocatePage :: "DiskManager \<Rightarrow> page_id_t \<times> DiskManager" where
  "AllocatePage d = (next_page_id d, d\<lparr>next_page_id := next_page_id d + 1\<rparr>)"

definition DeallocatePage :: "DiskManager \<Rightarrow> page_id_t \<Rightarrow> DiskManager" where
  "DeallocatePage d pid = d\<lparr>deallocated := deallocated d @ [pid]\<rparr>"

text \<open>
  Modelled from the spec: class \<open>Page\<close> (page.h) is not among the sources. A frame is a
  byte buffer plus \<open>page_id\<close>, \<open>pin_count\<close> and \<open>is_dirty\<close>; \<open>ResetMemory\<close> zeroes the
  whole buffer and leaves the metadata alone ("reset frame memory").
\<close>

record Page =
  data :: "nat list"
  page_id :: page_id_t
  pin_count :: int
  is_dirty :: bool

definition ResetMemory :: "Page \<Rightarrow> Page" where
  "ResetMemory p = p\<lparr>data := replicate (length (data p)) 0\<rparr>"

section \<open>BufferPoolManager (src/buffer/buffer_pool_manager.cpp)\<close>

text \<open>
  \<open>pages\<close> is the frame array \<open>pages_\<close> (its length is \<open>pool_size_\<close>). \<open>page_table\<close> is
  the \<open>std::unordered_map\<close> \<open>page_table_\<close> as an association list with unique keys: the
  order of the list is the order in which the map is iterated, which the C++ standard leaves
  open. \<open>free_list\<close> is the \<open>std::list\<close> \<open>free_list_\<close>.
\<close>

record BufferPoolManager =
  pages :: "Page list"
  page_table :: "(page_id_t \<times> frame_id_t) list"
  free_list :: "frame_id_t list"
  replacer :: ClockReplacer
  disk_manager :: DiskManager

text \<open>
  \<open>unordered_map::insert\<close> leaves the map alone when the key is present;
  \<open>unordered_map::erase\<close> removes the key's entry.
\<close>

definition pt_insert :: "page_id_t \<Rightarrow> frame_id_t \<Rightarrow> (page_id_t \<times> frame_id_t) list \<Rightarrow> (page_id_t \<times> frame_id_t) list" where
  "pt_insert pid f pt = (if map_of pt pid = None then pt @ [(pid, f)] else pt)"

definition pt_erase :: "page_id_t \<Rightarrow> (page_id_t \<times> frame_id_t) list \<Rightarrow> (page_id_t \<times> frame_id_t) list" where
  "pt_erase pid pt = filter (\<lambda>e. fst e \<noteq> pid) pt"

text \<open>
  The constructor: \<open>pool_size\<close> default-constructed frames, a replacer of the same capacity,
  and every frame index in the free list, in increasing order. The default frame (page.h) has
  a zeroed buffer of \<open>PAGE_SIZE\<close> bytes, the sentinel identifier -1, pin count 0 and a clean
  flag; \<open>PAGE_SIZE\<close> is declared outside the sources and is a parameter here.
\<close>

definition BufferPoolManager_new :: "nat \<Rightarrow> nat \<Rightarrow> DiskManager \<Rightarrow> BufferPoolManager" where
  "BufferPoolManager_new page_size pool_size d =
     \<lparr>pages = replicate pool_size \<lparr>data = replicate page_size 0, page_id = - 1, pin_count = 0, is_dirty = False\<rparr>,
      page_table = [],
      free_list = map int [0..<pool_size],
      replacer = ClockReplacer_new pool_size,
      disk_manager = d\<rparr>"

text \<open>
  Modelled from the spec: \<open>getFrameId\<close> and \<open>getPageByFrameId\<close> are helpers of
  buffer_pool_manager.h, which is not among the sources. The first is the page-table lookup
  ("if \<open>page_id\<close> is in the page table at frame \<open>f\<close>"); the second yields the handle onto
  \<open>Frame[f]\<close>. A handle (\<open>Page *\<close>) is modelled as the frame index it points at, \<open>nullptr\<close>
  as \<open>None\<close>; reading or writing through a handle outside the frame array is
  \<open>OutOfBounds\<close>.
\<close>

definition getFrameId :: "BufferPoolManager \<Rightarrow> page_id_t \<Rightarrow> frame_id_t option" where
  "getFrameId bpm pid = map_of (page_table bpm) pid"

definition getPageByFrameId :: "BufferPoolManager \<Rightarrow> frame_id_t \<Rightarrow> frame_id_t" where
  "getPageByFrameId bpm f = f"

text \<open>
  Modelled from the spec: \<open>isAllPined\<close> is a helper of buffer_pool_manager.h. "If every
  frame is pinned, return none", a pinned frame being one whose pin count is positive.
\<close>

definition isAllPined :: "BufferPoolManager \<Rightarrow> bool" where
  "isAllPined bpm = list_all (\<lambda>p. 0 < pin_count p) (pages bpm)"

text \<open>
  Modelled from the spec: \<open>pickVictimPage\<close> is a helper of buffer_pool_manager.h. "Obtain a
  free frame \<open>f\<close>, always prefer the free list over the replacer [the free list is drained
  front-first], else ask the replacer for a victim. If neither yields a frame, return none
  [the callers test for -1]. If the chosen frame was a victim that is dirty, write its
  payload back via the disk manager before reuse; then remove its old entry from the page
  table."
\<close>

definition pickVictimPage :: "BufferPoolManager \<Rightarrow> (error + frame_id_t \<times> BufferPoolManager) option" where
  "pickVictimPage bpm =
     (case free_list bpm of
        f # rest \<Rightarrow> Some (Inr (f, bpm\<lparr>free_list := rest\<rparr>))
      | [] \<Rightarrow>
          (case Victim (replacer bpm) of
             None \<Rightarrow> None
           | Some (Inl e) \<Rightarrow> Some (Inl e)
           | Some (Inr (None, r')) \<Rightarrow> Some (Inr (- 1, bpm\<lparr>replacer := r'\<rparr>))
           | Some (Inr (Some f, r')) \<Rightarrow>
               (if \<not> in_range (pages bpm) f then Some (Inl OutOfBounds)
                else
                  (let page = pages bpm ! nat f;
                       d' = (if is_dirty page
                             then WritePage (disk_manager bpm) (page_id page) (data page)
                             else disk_manager bpm)
                   in Some (Inr (f, bpm\<lparr>replacer := r',
                                         disk_manager := d',
                                         page_table := pt_erase (page_id page) (page_table bpm)\<rparr>))))))"

text \<open>
  \<open>FetchPageImpl\<close>. The result is the returned handle and the pool afterwards. On the miss
  path the statements run in the source's order: insert into the page table, reset the
  memory, pin in the replacer, set the metadata, read the page from disk.
\<close>

definition FetchPageImpl :: "BufferPoolManager \<Rightarrow> page_id_t \<Rightarrow> (error + frame_id_t option \<times> BufferPoolManager) option" where
  "FetchPageImpl bpm pid =
     (case getFrameId bpm pid of
        Some f \<Rightarrow>
          (case Pin (replacer bpm) f of
             Inl e \<Rightarrow> Some (Inl e)
           | Inr r' \<Rightarrow> Some (Inr (Some (getPageByFrameId bpm f), bpm\<lparr>replacer := r'\<rparr>)))
      | None \<Rightarrow>
          (case pickVictimPage bpm of
             None \<Rightarrow> None
           | Some (Inl e) \<Rightarrow> Some (Inl e)
           | Some (Inr (frame_id, b1)) \<Rightarrow>
               (if frame_id = - 1 then Some (Inr (None, b1))
                else
                  (let page = getPageByFrameId b1 frame_id;
                       b2 = b1\<lparr>page_table := pt_insert pid frame_id (page_table b1)\<rparr>
                   in if \<not> in_range (pages b2) page then Some (Inl OutOfBounds)
                      else
                        (case Pin (replacer b2) frame_id of
                           Inl e \<Rightarrow> Some (Inl e)
                         | Inr r' \<Rightarrow>
                             Some (Inr (Some page,
                               b2\<lparr>replacer := r',
                                  pages := (pages b2)[nat page :=
                                    (ResetMemory (pages b2 ! nat page))
                                      \<lparr>page_id := pid,
                                       pin_count := 1,
                                       is_dirty := False,
                                       data := ReadPage (disk_manager b2) pid\<rparr>]\<rparr>)))))))"

definition UnpinPageImpl :: "BufferPoolManager \<Rightarrow> page_id_t \<Rightarrow> bool \<Rightarrow> error + bool \<times> BufferPoolManager" where
  "UnpinPageImpl bpm pid dirty =
     (case getFrameId bpm pid of
        None \<Rightarrow> Inr (False, bpm)
      | Some frame_id \<Rightarrow>
          (let page = getPageByFrameId bpm frame_id
           in if \<not> in_range (pages bpm) page then Inl OutOfBounds
              else if pin_count (pages bpm ! nat page) \<le> 0 then Inr (False, bpm)
              else
                (let p = pages bpm ! nat page;
                     p' = p\<lparr>pin_count := pin_count p - 1, is_dirty := (is_dirty p \<or> dirty)\<rparr>
                 in case Unpin (replacer bpm) frame_id of
                      Inl e \<Rightarrow> Inl e
                    | Inr r' \<Rightarrow> Inr (True, bpm\<lparr>pages := (pages bpm)[nat page := p'], replacer := r'\<rparr>))))"

definition FlushPageImpl :: "BufferPoolManager \<Rightarrow> page_id_t \<Rightarrow> error + bool \<times> BufferPoolManager" where
  "FlushPageImpl bpm pid =
     (case getFrameId bpm pid of
        None \<Rightarrow> Inr (False, bpm)
      | Some frame_id \<Rightarrow>
          (let page = getPageByFrameId bpm frame_id
           in if \<not> in_range (pages bpm) page then Inl OutOfBounds
              else if \<not> is_dirty (pages bpm ! nat page) then Inr (False, bpm)
              else
                (let p = pages bpm ! nat page
                 in Inr (False,
                      bpm\<lparr>disk_manager := WritePage (disk_manager bpm) pid (data p),
                          pages := (pages bpm)[nat page := p\<lparr>is_dirty := False\<rparr>]\<rparr>))))"

text \<open>
  \<open>NewPageImpl\<close>. The result is the returned handle together with the identifier written
  to the output parameter, and the pool afterwards.
\<close>

definition NewPageImpl :: "BufferPoolManager \<Rightarrow> (error + (frame_id_t \<times> page_id_t) option \<times> BufferPoolManager) option" where
  "NewPageImpl bpm =
     (if isAllPined bpm then Some (Inr (None, bpm))
      else
        (case pickVictimPage bpm of
           None \<Rightarrow> None
         | Some (Inl e) \<Rightarrow> Some (Inl e)
         | Some (Inr (frame_id, b1)) \<Rightarrow>
             (if frame_id < 0 then Some (Inr (None, b1))
              else
                (let victim_page = getPageByFrameId b1 frame_id;
                     (new_page_id, d') = AllocatePage (disk_manager b1)
                 in if \<not> in_range (pages b1) victim_page then Some (Inl OutOfBounds)
                    else
                      Some (Inr (Some (victim_page, new_page_id),
                        b1\<lparr>disk_manager := d',
                           pages := (pages b1)[nat victim_page :=
                             (ResetMemory (pages b1 ! nat victim_page))
                               \<lparr>page_id := new_page_id, pin_count := 1, is_dirty := False\<rparr>],
                           page_table := pt_insert new_page_id frame_id (page_table b1)\<rparr>))))))"

definition DeletePageImpl :: "BufferPoolManager \<Rightarrow> page_id_t \<Rightarrow> error + bool \<times> BufferPoolManager" where
  "DeletePageImpl bpm pid =
     (case getFrameId bpm pid of
        None \<Rightarrow> Inr (True, bpm)
      | Some frame_id \<Rightarrow>
          (let page = getPageByFrameId bpm frame_id
           in if \<not> in_range (pages bpm) page then Inl OutOfBounds
              else if pin_count (pages bpm ! nat page) \<noteq> 0 then Inr (False, bpm)
              else
                (let p = pages bpm ! nat page
                 in Inr (False,
                      bpm\<lparr>page_table := pt_erase (page_id p) (page_table bpm),
                          pages := (pages bpm)[nat page := ResetMemory p],
                          free_list := free_list bpm @ [frame_id]\<rparr>))))"

text \<open>
  \<open>FlushAllPagesImpl\<close>: the range-for over \<open>page_table_\<close> calls \<open>FlushPageImpl\<close> on every
  key, in iteration order; \<open>FlushPageImpl\<close> does not change the table it iterates.
\<close>

fun flush_each :: "page_id_t list \<Rightarrow> BufferPoolManager \<Rightarrow> error + BufferPoolManager" where
  "flush_each [] bpm = Inr bpm"
| "flush_each (pid # pids) bpm =
     (case FlushPageImpl bpm pid of
        Inl e \<Rightarrow> Inl e
      | Inr (_, bpm') \<Rightarrow> flush_each pids bpm')"

definition FlushAllPagesImpl :: "BufferPoolManager \<Rightarrow> error + BufferPoolManager" where
  "FlushAllPagesImpl bpm = flush_each (map fst (page_table bpm)) bpm"

section \<open>Specification-level notions for the replacer\<close>

text \<open>
  The states the replacer can be in: the two vectors have the same length (the constructor
  resizes both, nothing else changes a length), the hand is not negative, and
  \<open>victimized_size\<close> is the number of evictable frames.
\<close>

definition replacer_wf :: "ClockReplacer \<Rightarrow> bool" where
  "replacer_wf r \<longleftrightarrow>
     length (access_states r) = length (pins_states r) \<and>
     0 \<le> clock_pointer r \<and>
     victimized_size r = int (length (filter (\<lambda>b. \<not> b) (pins_states r)))"

text \<open>
  The states reached from the constructor by calls that return (a call that indexes out of
  bounds has no state afterwards).
\<close>

inductive replacer_reachable :: "ClockReplacer \<Rightarrow> bool" where
  reach_new: "replacer_reachable (ClockReplacer_new n)"
| reach_Pin: "replacer_reachable r \<Longrightarrow> Pin r f = Inr r' \<Longrightarrow> replacer_reachable r'"
| reach_Unpin: "replacer_reachable r \<Longrightarrow> Unpin r f = Inr r' \<Longrightarrow> replacer_reachable r'"
| reach_Victim: "replacer_reachable r \<Longrightarrow> Victim r = Some (Inr (x, r')) \<Longrightarrow> replacer_reachable r'"

text \<open>
  The position the hand points at once the wrap test at the head of the loop body has run.
\<close>

definition hand :: "ClockReplacer \<Rightarrow> nat" where
  "hand r = (if clock_pointer r \<ge> int (length (pins_states r)) then 0 else nat (clock_pointer r))"

text \<open>
  Following the spec's words: "sweep forward from \<open>hand\<close>, wrapping at capacity". One
  revolution from hand \<open>h\<close> over \<open>n\<close> frames visits \<open>h, ..., n - 1, 0, ..., h - 1\<close>. The
  candidates are the evictable frames in that order. Frames whose reference bit is set get
  it cleared and are passed over; the victim is the first candidate whose reference bit is
  clear when the hand reaches it: the first candidate with a clear bit, or, when every
  candidate's bit was set and the first revolution has cleared them all, the first candidate.
  The victim stops being evictable and the hand ends one position past it.
\<close>

definition sweep_order :: "nat \<Rightarrow> nat \<Rightarrow> nat list" where
  "sweep_order n h = [h..<n] @ [0..<h]"

definition candidates :: "ClockReplacer \<Rightarrow> nat list" where
  "candidates r = filter (\<lambda>i. \<not> pins_states r ! i) (sweep_order (length (pins_states r)) (hand r))"

definition clear_refs :: "nat list \<Rightarrow> bool list \<Rightarrow> bool list" where
  "clear_refs is A = map (\<lambda>j. A ! j \<and> j \<notin> set is) [0..<length A]"

definition victim_spec :: "ClockReplacer \<Rightarrow> frame_id_t \<times> ClockReplacer" where
  "victim_spec r =
     (let cand = candidates r;
          second_chance = takeWhile (\<lambda>i. access_states r ! i) cand;
          v = hd (dropWhile (\<lambda>i. access_states r ! i) cand @ cand)
      in (int v,
          r\<lparr>access_states := clear_refs second_chance (access_states r),
            pins_states := (pins_states r)[v := True],
            victimized_size := victimized_size r - 1,
            clock_pointer := int v + 1\<rparr>))"

text \<open>
  Auxiliary functions for the proofs: the positions the hand visits in \<open>k\<close> iterations, and
  the loop replayed over a list of positions.
\<close>

fun ring :: "nat \<Rightarrow> nat \<Rightarrow> nat \<Rightarrow> nat list" where
  "ring n h 0 = []"
| "ring n h (Suc k) = h # ring n (if n \<le> Suc h then 0 else Suc h) k"

fun sweep :: "nat list \<Rightarrow> bool list \<Rightarrow> bool list \<Rightarrow> nat option \<times> bool list" where
  "sweep [] P A = (None, A)"
| "sweep (i # is) P A =
     (if P ! i then sweep is P A
      else if A ! i then sweep is P (A[i := False])
      else (Some i, A))"

fun sweep2 :: "nat list \<Rightarrow> bool list \<Rightarrow> nat option \<times> bool list" where
  "sweep2 [] A = (None, A)"
| "sweep2 (i # is) A = (if A ! i then sweep2 is (A[i := False]) else (Some i, A))"


section \<open>Specification-level notions for the pool\<close>

text \<open>
  Following the spec's words: "a frame is evictable in the replacer iff its \<open>pin_count = 0\<close>
  and it holds a page", and \<open>Size()\<close> is the number of such frames. A frame holds a page
  when the page table maps some identifier to it.
\<close>

definition evictable_agrees :: "BufferPoolManager \<Rightarrow> bool" where
  "evictable_agrees bpm \<longleftrightarrow>
     list_all
       (\<lambda>f. (\<not> pins_states (replacer bpm) ! f) =
            (pin_count (pages bpm ! f) = 0 \<and> int f \<in> snd ` set (page_table bpm)))
       [0..<length (pages bpm)] \<and>
     Size (replacer bpm) =
       int (length (filter (\<lambda>f. pin_count (pages bpm ! f) = 0 \<and> int f \<in> snd ` set (page_table bpm))
                      [0..<length (pages bpm)]))"

text \<open>
  The page table as the data model has it: keys unique (it is a map), one-to-one (no frame
  under two identifiers), and every frame index inside the frame array. \<open>dirty_entries\<close>
  are the entries whose frame is dirty, in iteration order.
\<close>

definition page_table_wf :: "BufferPoolManager \<Rightarrow> bool" where
  "page_table_wf bpm \<longleftrightarrow>
     distinct (map fst (page_table bpm)) \<and>
     distinct (map snd (page_table bpm)) \<and>
     list_all (\<lambda>e. in_range (pages bpm) (snd e)) (page_table bpm)"

definition dirty_entries :: "BufferPoolManager \<Rightarrow> (page_id_t \<times> frame_id_t) list" where
  "dirty_entries bpm = filter (\<lambda>e. is_dirty (pages bpm ! nat (snd e))) (page_table bpm)"

section \<open>Concrete states\<close>

text \<open>
  A replacer of capacity 3 with frames 0 and 2 evictable, both with the reference bit set,
  and the hand at the end of the vector (where \<open>Victim\<close> leaves it after selecting frame 2).
\<close>

definition ex_replacer :: ClockReplacer where
  "ex_replacer =
     \<lparr>access_states = [True, False, True],
      pins_states = [False, True, False],
      clock_pointer = 3,
      victimized_size = 2\<rparr>"

text \<open>
  A pool of one frame over a disk whose every page holds the two bytes 7, 7. \<open>pool_fetched\<close>
  is the pool after \<open>Fetch(0)\<close>, \<open>pool_unpinned dirty\<close> after a following
  \<open>Unpin(0, dirty)\<close>; \<open>pool_deleted\<close> and \<open>pool_refetched\<close> are what \<open>DeletePage(0)\<close> and
  a second \<open>Fetch(0)\<close> then leave (each is proved below to be what the code computes).
\<close>

definition ex_disk :: DiskManager where
  "ex_disk = \<lparr>stored = (\<lambda>_. [7, 7]), next_page_id = 0, written = [], deallocated = []\<rparr>"

definition pool_fresh :: BufferPoolManager where
  "pool_fresh = BufferPoolManager_new 2 1 ex_disk"

definition pool_fetched :: BufferPoolManager where
  "pool_fetched =
     \<lparr>pages = [\<lparr>data = [7, 7], page_id = 0, pin_count = 1, is_dirty = False\<rparr>],
      page_table = [(0, 0)],
      free_list = [],
      replacer = \<lparr>access_states = [False], pins_states = [True], clock_pointer = 0, victimized_size = 0\<rparr>,
      disk_manager = ex_disk\<rparr>"

definition pool_unpinned :: "bool \<Rightarrow> BufferPoolManager" where
  "pool_unpinned dirty =
     \<lparr>pages = [\<lparr>data = [7, 7], page_id = 0, pin_count = 0, is_dirty = dirty\<rparr>],
      page_table = [(0, 0)],
      free_list = [],
      replacer = \<lparr>access_states = [True], pins_states = [False], clock_pointer = 0, victimized_size = 1\<rparr>,
      disk_manager = ex_disk\<rparr>"

definition pool_deleted :: BufferPoolManager where
  "pool_deleted =
     \<lparr>pages = [\<lparr>data = [0, 0], page_id = 0, pin_count = 0, is_dirty = False\<rparr>],
      page_table = [],
      free_list = [0],
      replacer = \<lparr>access_states = [True], pins_states = [False], clock_pointer = 0, victimized_size = 1\<rparr>,
      disk_manager = ex_disk\<rparr>"

definition pool_refetched :: BufferPoolManager where
  "pool_refetched =
     \<lparr>pages = [\<lparr>data = [7, 7], page_id = 0, pin_count = 0, is_dirty = False\<rparr>],
      page_table = [(0, 0)],
      free_list = [],
      replacer = \<lparr>access_states = [True], pins_states = [True], clock_pointer = 0, victimized_size = 0\<rparr>,
      disk_manager = ex_disk\<rparr>"

text \<open>
  A pool of two frames after \<open>Fetch(0); Fetch(1); Unpin(0, true)\<close>: page 0 is dirty and
  unpinned, page 1 is clean and pinned.
\<close>

definition pool_two :: BufferPoolManager where
  "pool_two =
     \<lparr>pages = [\<lparr>data = [7, 7], page_id = 0, pin_count = 0, is_dirty = True\<rparr>,
               \<lparr>data = [7, 7], page_id = 1, pin_count = 1, is_dirty = False\<rparr>],
      page_table = [(0, 0), (1, 1)],
      free_list = [],
      replacer = \<lparr>access_states = [True, False], pins_states = [False, True],
                  clock_pointer = 0, victimized_size = 1\<rparr>,
      disk_manager = ex_disk\<rparr>"

section \<open>The clock sweep\<close>

lemma victim_within_sound:
  "victim_within k r = Some x \<Longrightarrow> victim_loop r = Some x"
proof (induction k arbitrary: r)
  case 0
  then show ?case by simp
next
  case (Suc k)
  then show ?case
    by (subst victim_loop.simps) (auto split: victim_step.splits)
qed

lemma body_pinned:
  assumes "0 \<le> clock_pointer r" "hand r < length (pins_states r)" "pins_states r ! hand r"
  shows "victim_body r = Continue (r\<lparr>clock_pointer := int (hand r) + 1\<rparr>)"
  using assms by (cases "int (length (pins_states r)) \<le> clock_pointer r")
    (simp_all add: victim_body_def hand_def in_range_def Let_def)

lemma body_second_chance:
  assumes "0 \<le> clock_pointer r" "hand r < length (pins_states r)"
    "length (access_states r) = length (pins_states r)"
    "\<not> pins_states r ! hand r" "access_states r ! hand r"
  shows "victim_body r = Continue (r\<lparr>access_states := (access_states r)[hand r := False],
                                     clock_pointer := int (hand r) + 1\<rparr>)"
  using assms by (cases "int (length (pins_states r)) \<le> clock_pointer r")
    (simp_all add: victim_body_def hand_def in_range_def Let_def)

lemma body_select:
  assumes "0 \<le> clock_pointer r" "hand r < length (pins_states r)"
    "length (access_states r) = length (pins_states r)"
    "\<not> pins_states r ! hand r" "\<not> access_states r ! hand r"
  shows "victim_body r = Selected (int (hand r))
           (r\<lparr>pins_states := (pins_states r)[hand r := True],
              victimized_size := victimized_size r - 1,
              clock_pointer := int (hand r) + 1\<rparr>)"
  using assms by (cases "int (length (pins_states r)) \<le> clock_pointer r")
    (simp_all add: victim_body_def hand_def in_range_def Let_def)

lemma sweep_run:
  assumes "0 \<le> clock_pointer r" "hand r < length (pins_states r)"
    "length (access_states r) = length (pins_states r)"
    "sweep (ring (length (pins_states r)) (hand r) k) (pins_states r) (access_states r) = (Some v, A')"
  shows "victim_within k r =
           Some (Inr (int v, r\<lparr>access_states := A',
                               pins_states := (pins_states r)[v := True],
                               victimized_size := victimized_size r - 1,
                               clock_pointer := int v + 1\<rparr>))"
  using assms
proof (induction k arbitrary: r)
  case 0
  then show ?case by simp
next
  case (Suc k)
  let ?n = "length (pins_states r)"
  let ?h = "hand r"
  let ?h' = "if ?n \<le> Suc ?h then 0 else Suc ?h"
  show ?case
  proof (cases "pins_states r ! ?h")
    case True
    let ?r1 = "r\<lparr>clock_pointer := int ?h + 1\<rparr>"
    have b: "victim_body r = Continue ?r1"
      using body_pinned Suc.prems True by simp
    have h1: "hand ?r1 = ?h'" by (auto simp: hand_def)
    have "victim_within k ?r1 = Some (Inr (int v, ?r1\<lparr>access_states := A',
                               pins_states := (pins_states ?r1)[v := True],
                               victimized_size := victimized_size ?r1 - 1,
                               clock_pointer := int v + 1\<rparr>))"
      apply (rule Suc.IH)
      using Suc.prems True h1 by (auto)
    then show ?thesis using b by simp
  next
    case False
    note unpinned = this
    show ?thesis
    proof (cases "access_states r ! ?h")
      case True
      let ?r1 = "r\<lparr>access_states := (access_states r)[?h := False], clock_pointer := int ?h + 1\<rparr>"
      have b: "victim_body r = Continue ?r1"
        using body_second_chance Suc.prems True unpinned by simp
      have h1: "hand ?r1 = ?h'" by (auto simp: hand_def)
      have "victim_within k ?r1 = Some (Inr (int v, ?r1\<lparr>access_states := A',
                               pins_states := (pins_states ?r1)[v := True],
                               victimized_size := victimized_size ?r1 - 1,
                               clock_pointer := int v + 1\<rparr>))"
        apply (rule Suc.IH)
        using Suc.prems True unpinned h1 by (auto)
      then show ?thesis using b by simp
    next
      case False
      have b: "victim_body r = Selected (int ?h)
           (r\<lparr>pins_states := (pins_states r)[?h := True],
              victimized_size := victimized_size r - 1,
              clock_pointer := int ?h + 1\<rparr>)"
        using body_select Suc.prems False unpinned by simp
      have "v = ?h" "A' = access_states r" using Suc.prems(4) False unpinned by auto
      then show ?thesis using b by simp
    qed
  qed
qed

lemma ring_upt: "h + k \<le> n \<Longrightarrow> ring n h k = [h..<h + k]"
proof (induction k arbitrary: h)
  case 0
  then show ?case by simp
next
  case (Suc k)
  show ?case
  proof (cases k)
    case 0
    then show ?thesis by simp
  next
    case (Suc k')
    with Suc.prems have "Suc h < n" by simp
    moreover have "ring n (Suc h) k = [Suc h..<Suc h + k]"
      using Suc.IH [of "Suc h"] Suc.prems by simp
    ultimately show ?thesis by (simp add: upt_conv_Cons)
  qed
qed

lemma ring_prefix: "a + j < n \<Longrightarrow> ring n a (j + k) = [a..<a + j] @ ring n (a + j) k"
proof (induction j arbitrary: a)
  case 0
  then show ?case by simp
next
  case (Suc j)
  have "ring n (Suc a) (j + k) = [Suc a..<Suc a + j] @ ring n (Suc a + j) k"
    using Suc.IH [of "Suc a"] Suc.prems by simp
  then show ?case using Suc.prems by (simp add: upt_conv_Cons)
qed

lemma ring_wrap: "h < n \<Longrightarrow> ring n h ((n - h) + k) = [h..<n] @ ring n 0 k"
proof -
  assume h: "h < n"
  then obtain j where j: "n - h = Suc j" by (cases "n - h") auto
  then have hj: "h + j < n" "h + j = n - 1" using h by auto
  have "ring n h (j + Suc k) = [h..<h + j] @ ring n (h + j) (Suc k)"
    using ring_prefix [of h j n "Suc k"] hj by simp
  also have "ring n (h + j) (Suc k) = (h + j) # ring n 0 k"
    using hj by simp
  finally have "ring n h (j + Suc k) = [h..<Suc (h + j)] @ ring n 0 k"
    by simp
  moreover have "Suc (h + j) = n" using hj h by simp
  ultimately show ?thesis using j by simp
qed

lemma ring_revolution: "h < n \<Longrightarrow> ring n h n = sweep_order n h"
  using ring_wrap [of h n h] ring_upt [of 0 h n] by (simp add: sweep_order_def)

lemma ring_two_revolutions: "h < n \<Longrightarrow> ring n h (2 * n) = sweep_order n h @ sweep_order n h"
proof -
  assume h: "h < n"
  have "ring n h ((n - h) + (h + n)) = [h..<n] @ ring n 0 (h + n)"
    using ring_wrap [OF h] by blast
  also have "ring n 0 (h + n) = [0..<h] @ ring n h n"
    using ring_prefix [of 0 h n n] h by simp
  finally have "ring n h ((n - h) + (h + n)) = [h..<n] @ [0..<h] @ ring n h n" .
  moreover have "(n - h) + (h + n) = 2 * n" using h by simp
  ultimately show ?thesis using ring_revolution [OF h] by (simp add: sweep_order_def)
qed

lemma sweep_append:
  "sweep (xs @ ys) P A = (case sweep xs P A of (Some v, A') \<Rightarrow> (Some v, A') | (None, A') \<Rightarrow> sweep ys P A')"
  by (induction xs arbitrary: A) auto

lemma sweep2_append:
  "sweep2 (xs @ ys) A = (case sweep2 xs A of (Some v, A') \<Rightarrow> (Some v, A') | (None, A') \<Rightarrow> sweep2 ys A')"
  by (induction xs arbitrary: A) auto

lemma sweep_filter: "sweep xs P A = sweep2 (filter (\<lambda>i. \<not> P ! i) xs) A"
  by (induction xs arbitrary: A) auto

lemma clear_refs_Nil: "clear_refs [] A = A"
  by (simp add: clear_refs_def map_nth)

lemma clear_refs_Cons: "clear_refs (i # is) A = clear_refs is (A[i := False])"
proof (cases "i < length A")
  case True
  then show ?thesis by (auto simp: clear_refs_def nth_list_update)
next
  case False
  then show ?thesis by (auto simp: clear_refs_def)
qed

lemma sweep2_char:
  assumes "distinct cs"
  shows "sweep2 cs A =
           (case dropWhile (\<lambda>i. A ! i) cs of [] \<Rightarrow> None | v # _ \<Rightarrow> Some v,
            clear_refs (takeWhile (\<lambda>i. A ! i) cs) A)"
  using assms
proof (induction cs arbitrary: A)
  case Nil
  then show ?case by (simp add: clear_refs_Nil)
next
  case (Cons c cs)
  show ?case
  proof (cases "A ! c")
    case True
    have same: "(A[c := False]) ! i = A ! i" if "i \<in> set cs" for i
    proof -
      from that Cons.prems have "c \<noteq> i" by auto
      then show ?thesis by simp
    qed
    have tw: "takeWhile (\<lambda>i. (A[c := False]) ! i) cs = takeWhile (\<lambda>i. A ! i) cs"
      by (rule takeWhile_cong) (auto simp: same)
    have dw: "dropWhile (\<lambda>i. (A[c := False]) ! i) cs = dropWhile (\<lambda>i. A ! i) cs"
      by (rule dropWhile_cong) (auto simp: same)
    show ?thesis
      using True Cons.IH [of "A[c := False]"] Cons.prems
      by (simp add: tw dw clear_refs_Cons)
  next
    case False
    then show ?thesis by (simp add: clear_refs_Nil)
  qed
qed

lemma sweep2_twice:
  assumes "distinct cs" "cs \<noteq> []" "\<forall>i \<in> set cs. i < length A"
  shows "sweep2 (cs @ cs) A =
           (Some (hd (dropWhile (\<lambda>i. A ! i) cs @ cs)), clear_refs (takeWhile (\<lambda>i. A ! i) cs) A)"
proof (cases "dropWhile (\<lambda>i. A ! i) cs")
  case Nil
  then have all: "takeWhile (\<lambda>i. A ! i) cs = cs"
    by (metis append_Nil2 takeWhile_dropWhile_id)
  have first: "sweep2 cs A = (None, clear_refs cs A)"
    using sweep2_char [OF assms(1), of A] Nil all by simp
  obtain c cs' where cs: "cs = c # cs'" using assms(2) by (cases cs) auto
  define B where "B = clear_refs cs A"
  have "\<not> B ! c"
    using assms(3) cs by (simp add: clear_refs_def B_def)
  then have "sweep2 (c # cs') B = (Some c, B)"
    by simp
  then have second: "sweep2 cs (clear_refs cs A) = (Some c, clear_refs cs A)"
    by (simp add: cs B_def)
  have "sweep2 (cs @ cs) A = sweep2 cs (clear_refs cs A)"
    by (simp add: sweep2_append first)
  moreover have "hd (dropWhile (\<lambda>i. A ! i) cs @ cs) = hd cs"
    by (simp only: Nil append_Nil)
  moreover have "hd cs = c"
    by (simp add: cs)
  ultimately have "sweep2 (cs @ cs) A = (Some (hd (dropWhile (\<lambda>i. A ! i) cs @ cs)), clear_refs cs A)"
    using second by simp
  then show ?thesis
    by (simp only: all)
next
  case (Cons v vs)
  then show ?thesis
    using sweep2_char [OF assms(1), of A] by (simp add: sweep2_append)
qed

lemma sweep_order_distinct: "h < n \<Longrightarrow> distinct (sweep_order n h)"
  by (auto simp: sweep_order_def)

lemma sweep_order_set: "h < n \<Longrightarrow> set (sweep_order n h) = {..<n}"
  by (auto simp: sweep_order_def)

lemma sweep_two_revolutions:
  assumes "h < length P" "length A = length P" "\<exists>i<length P. \<not> P ! i"
  shows "sweep (ring (length P) h (2 * length P)) P A =
           (let cand = filter (\<lambda>i. \<not> P ! i) (sweep_order (length P) h)
            in (Some (hd (dropWhile (\<lambda>i. A ! i) cand @ cand)),
                clear_refs (takeWhile (\<lambda>i. A ! i) cand) A))"
proof -
  let ?ord = "sweep_order (length P) h"
  let ?cand = "filter (\<lambda>i. \<not> P ! i) ?ord"
  have d: "distinct ?cand" using sweep_order_distinct [OF assms(1)] by simp
  have ne: "?cand \<noteq> []"
    using assms(3) sweep_order_set [OF assms(1)] by (auto simp: filter_empty_conv)
  have rng: "\<forall>i \<in> set ?cand. i < length A"
    using sweep_order_set [OF assms(1)] assms(2) by auto
  have "sweep (?ord @ ?ord) P A = sweep2 (?cand @ ?cand) A"
    by (simp add: sweep_filter)
  then show ?thesis
    using sweep2_twice [OF d ne rng] ring_two_revolutions [OF assms(1)]
    by (simp add: Let_def)
qed

lemma hand_less: "0 < length (pins_states r) \<Longrightarrow> 0 \<le> clock_pointer r \<Longrightarrow> hand r < length (pins_states r)"
  by (auto simp: hand_def)

lemma evictable_count:
  "(\<exists>i<length P. \<not> P ! i) \<longleftrightarrow> length (filter (\<lambda>b. \<not> b) P) \<noteq> 0"
proof -
  have "(\<exists>x \<in> set P. \<not> x) \<longleftrightarrow> (\<exists>i<length P. \<not> P ! i)"
    by (metis in_set_conv_nth)
  then show ?thesis by (simp add: filter_empty_conv)
qed

lemma victim_within_two_revolutions:
  assumes "replacer_wf r" "\<exists>i<length (pins_states r). \<not> pins_states r ! i"
  shows "victim_within (2 * length (pins_states r)) r = Some (Inr (victim_spec r))"
proof -
  let ?P = "pins_states r" and ?A = "access_states r"
  from assms have n: "0 < length ?P" by auto
  from assms(1) have cp: "0 \<le> clock_pointer r" and len: "length ?A = length ?P"
    by (auto simp: replacer_wf_def)
  have h: "hand r < length ?P" using hand_less n cp by simp
  let ?cand = "candidates r"
  have "sweep (ring (length ?P) (hand r) (2 * length ?P)) ?P ?A =
          (Some (hd (dropWhile (\<lambda>i. ?A ! i) ?cand @ ?cand)),
           clear_refs (takeWhile (\<lambda>i. ?A ! i) ?cand) ?A)"
    using sweep_two_revolutions [OF h len assms(2)] by (simp add: candidates_def Let_def)
  from sweep_run [OF cp h len this] show ?thesis
    by (simp add: victim_spec_def Let_def)
qed

lemma Victim_evictable:
  assumes "replacer_wf r" "\<exists>i<length (pins_states r). \<not> pins_states r ! i"
  shows "Victim r = Some (Inr (Some (fst (victim_spec r)), snd (victim_spec r)))"
proof -
  have "victimized_size r \<noteq> 0"
    using assms evictable_count [of "pins_states r"] by (simp add: replacer_wf_def)
  moreover have "victim_loop r = Some (Inr (victim_spec r))"
    using victim_within_two_revolutions [OF assms] by (rule victim_within_sound)
  ultimately show ?thesis
    by (simp add: Victim_def split: prod.splits)
qed

lemma Victim_none:
  assumes "replacer_wf r" "\<forall>i<length (pins_states r). pins_states r ! i"
  shows "Victim r = Some (Inr (None, r))"
proof -
  have "victimized_size r = 0"
    using assms evictable_count [of "pins_states r"] by (auto simp: replacer_wf_def)
  then show ?thesis by (simp add: Victim_def)
qed

lemma count_update_nat:
  "i < length P \<Longrightarrow>
     length (filter (\<lambda>b. \<not> b) (P[i := x])) + (if P ! i then 0 else 1) =
       length (filter (\<lambda>b. \<not> b) P) + (if x then 0 else 1)"
proof (induction P arbitrary: i)
  case Nil
  then show ?case by simp
next
  case (Cons p P)
  show ?case
  proof (cases i)
    case 0
    then show ?thesis by simp
  next
    case (Suc j)
    then have "j < length P" using Cons.prems by simp
    from Cons.IH [OF this] show ?thesis using Suc
      by (cases x; cases "P ! j"; cases p; simp)
  qed
qed

lemma count_update:
  "i < length P \<Longrightarrow>
     int (length (filter (\<lambda>b. \<not> b) (P[i := x]))) =
       int (length (filter (\<lambda>b. \<not> b) P)) - (if P ! i then 0 else 1) + (if x then 0 else 1)"
  using count_update_nat [of i P x] by (simp split: if_splits)

lemma wf_new: "replacer_wf (ClockReplacer_new n)"
  by (simp add: replacer_wf_def ClockReplacer_new_def)

lemma wf_Pin:
  assumes "replacer_wf r" "Pin r f = Inr r'"
  shows "replacer_wf r'"
proof (cases "f < int (length (pins_states r)) \<and> in_range (pins_states r) f \<and> \<not> pins_states r ! nat f")
  case True
  then have r': "r' = r\<lparr>pins_states := (pins_states r)[nat f := True],
                        victimized_size := victimized_size r - 1\<rparr>"
    using assms(2) by (simp add: Pin_def)
  have "nat f < length (pins_states r)" using True by (auto simp: in_range_def)
  from count_update [OF this, of True] True assms(1) show ?thesis
    by (simp add: r' replacer_wf_def)
next
  case False
  then have "r' = r" using assms(2) by (auto simp: Pin_def split: if_splits)
  then show ?thesis using assms(1) by simp
qed

lemma wf_Unpin:
  assumes "replacer_wf r" "Unpin r f = Inr r'"
  shows "replacer_wf r'"
proof (cases "f < int (length (pins_states r))")
  case True
  note lt = this
  have len: "length (access_states r) = length (pins_states r)"
    using assms(1) by (simp add: replacer_wf_def)
  show ?thesis
  proof (cases "in_range (pins_states r) f")
    case True
    then have i: "nat f < length (pins_states r)" by (auto simp: in_range_def)
    have ra: "in_range (access_states r) f" using True len by (simp add: in_range_def)
    show ?thesis
    proof (cases "pins_states r ! nat f")
      case True
      then have r': "r' = r\<lparr>pins_states := (pins_states r)[nat f := False],
                        victimized_size := victimized_size r + 1,
                        access_states := (access_states r)[nat f := True]\<rparr>"
        using assms(2) lt \<open>in_range (pins_states r) f\<close> ra
        by (simp add: Unpin_def Let_def in_range_def)
      from count_update [OF i, of False] True assms(1) show ?thesis
        by (simp add: r' replacer_wf_def)
    next
      case False
      then have r': "r' = r\<lparr>access_states := (access_states r)[nat f := True]\<rparr>"
        using assms(2) lt \<open>in_range (pins_states r) f\<close> ra
        by (simp add: Unpin_def Let_def in_range_def)
      show ?thesis using assms(1) by (simp add: r' replacer_wf_def)
    qed
  next
    case False
    then show ?thesis using assms(2) lt by (simp add: Unpin_def)
  qed
next
  case False
  then have "r' = r" using assms(2) by (simp add: Unpin_def)
  then show ?thesis using assms(1) by simp
qed

lemma victim_spec_evictable:
  assumes "replacer_wf r" "\<exists>i<length (pins_states r). \<not> pins_states r ! i"
  shows "nat (fst (victim_spec r)) < length (pins_states r) \<and> \<not> pins_states r ! nat (fst (victim_spec r))"
proof -
  let ?cand = "candidates r"
  let ?A = "access_states r"
  from assms have n: "0 < length (pins_states r)" by auto
  have h: "hand r < length (pins_states r)"
    using hand_less n assms(1) by (simp add: replacer_wf_def)
  have ne: "?cand \<noteq> []"
    using assms(2) sweep_order_set [OF h] by (auto simp: candidates_def filter_empty_conv)
  then have "dropWhile (\<lambda>i. ?A ! i) ?cand @ ?cand \<noteq> []" by simp
  then have "hd (dropWhile (\<lambda>i. ?A ! i) ?cand @ ?cand) \<in> set (dropWhile (\<lambda>i. ?A ! i) ?cand @ ?cand)"
    by (rule hd_in_set)
  then have "hd (dropWhile (\<lambda>i. ?A ! i) ?cand @ ?cand) \<in> set ?cand"
    using set_dropWhileD by fastforce
  then show ?thesis
    using sweep_order_set [OF h] by (auto simp: victim_spec_def Let_def candidates_def)
qed

lemma wf_Victim:
  assumes "replacer_wf r" "Victim r = Some (Inr (x, r'))"
  shows "replacer_wf r'"
proof (cases "\<exists>i<length (pins_states r). \<not> pins_states r ! i")
  case True
  from Victim_evictable [OF assms(1) True] assms(2)
  have r': "r' = snd (victim_spec r)" by simp
  let ?v = "nat (fst (victim_spec r))"
  from victim_spec_evictable [OF assms(1) True]
  have v: "?v < length (pins_states r)" "\<not> pins_states r ! ?v" by simp_all
  have "pins_states r' = (pins_states r)[?v := True]"
    "victimized_size r' = victimized_size r - 1"
    "0 \<le> clock_pointer r'"
    "length (access_states r') = length (access_states r)"
    by (simp_all add: r' victim_spec_def Let_def clear_refs_def)
  with count_update [OF v(1), of True] v(2) assms(1) show ?thesis
    by (simp add: replacer_wf_def)
next
  case False
  then have "Victim r = Some (Inr (None, r))" using Victim_none assms(1) by simp
  with assms show ?thesis by simp
qed

lemma reachable_wf: "replacer_reachable r \<Longrightarrow> replacer_wf r"
proof (induction rule: replacer_reachable.induct)
  case (reach_new n)
  show ?case by (rule wf_new)
next
  case (reach_Pin r f r')
  then show ?case using wf_Pin by blast
next
  case (reach_Unpin r f r')
  then show ?case using wf_Unpin by blast
next
  case (reach_Victim r x r')
  then show ?case using wf_Victim by blast
qed

section \<open>Claims about the replacer\<close>

lemma ex_replacer_wf: "replacer_wf ex_replacer"
  by (simp add: replacer_wf_def ex_replacer_def)

lemma ex_replacer_evictable: "\<exists>i<length (pins_states ex_replacer). \<not> pins_states ex_replacer ! i"
  by (rule exI [of _ 0]) (simp add: ex_replacer_def)

lemma ex_replacer_spec:
  "victim_spec ex_replacer =
     (0, \<lparr>access_states = [False, False, False],
           pins_states = [True, True, False],
           clock_pointer = 1,
           victimized_size = 1\<rparr>)"
  by (simp add: victim_spec_def candidates_def sweep_order_def hand_def clear_refs_def
      ex_replacer_def upt_conv_Cons Let_def)

lemma ex_replacer_reachable: "replacer_reachable ex_replacer"
proof -
  let ?r0 = "ClockReplacer_new 3"
  let ?r1 = "\<lparr>access_states = [False, False, True], pins_states = [True, True, False],
              clock_pointer = 0, victimized_size = 1\<rparr>"
  let ?r2 = "\<lparr>access_states = [False, False, False], pins_states = [True, True, True],
              clock_pointer = 3, victimized_size = 0\<rparr>"
  let ?r3 = "\<lparr>access_states = [True, False, False], pins_states = [False, True, True],
              clock_pointer = 3, victimized_size = 1\<rparr>"
  have 0: "replacer_reachable ?r0" by (rule reach_new)
  have "Unpin ?r0 2 = Inr ?r1"
    by (simp add: Unpin_def ClockReplacer_new_def in_range_def numeral_3_eq_3 numeral_2_eq_2)
  from reach_Unpin [OF 0 this] have 1: "replacer_reachable ?r1" .
  have wf1: "replacer_wf ?r1" by (simp add: replacer_wf_def)
  have ev1: "\<exists>i<length (pins_states ?r1). \<not> pins_states ?r1 ! i"
    by (rule exI [of _ 2]) simp
  have "victim_spec ?r1 = (2, ?r2)"
    by (simp add: victim_spec_def candidates_def sweep_order_def hand_def clear_refs_def
        upt_conv_Cons Let_def numeral_2_eq_2)
  with Victim_evictable [OF wf1 ev1] have "Victim ?r1 = Some (Inr (Some 2, ?r2))" by simp
  from reach_Victim [OF 1 this] have 2: "replacer_reachable ?r2" .
  have "Unpin ?r2 0 = Inr ?r3"
    by (simp add: Unpin_def in_range_def)
  from reach_Unpin [OF 2 this] have 3: "replacer_reachable ?r3" .
  have "Unpin ?r3 2 = Inr ex_replacer"
    by (simp add: Unpin_def in_range_def ex_replacer_def numeral_2_eq_2)
  from reach_Unpin [OF 3 this] show ?thesis .
qed

text \<open>
  C6. When at least one frame is evictable, \<open>Victim\<close> sweeps forward from the hand, wrapping
  at capacity. One iteration at the hand's position skips a pinned frame, clears the
  reference bit of an evictable frame whose bit is set, and otherwise selects the frame:
  it is marked pinned, the count drops by one, the hand moves one past it and its index is
  returned. The call as a whole returns what \<open>victim_spec\<close> describes: the first evictable
  frame in sweep order from the hand whose reference bit is clear once the frames before it
  have had theirs cleared, with exactly the bits of the frames passed over cleared.
\<close>

theorem Victim_clock_sweep:
  assumes "replacer_wf r" and "\<exists>i<length (pins_states r). \<not> pins_states r ! i"
  shows "Victim r = Some (Inr (Some (fst (victim_spec r)), snd (victim_spec r))) \<and>
         (pins_states r ! hand r \<longrightarrow>
            victim_body r = Continue (r\<lparr>clock_pointer := int (hand r) + 1\<rparr>)) \<and>
         (\<not> pins_states r ! hand r \<and> access_states r ! hand r \<longrightarrow>
            victim_body r = Continue (r\<lparr>access_states := (access_states r)[hand r := False],
                                        clock_pointer := int (hand r) + 1\<rparr>)) \<and>
         (\<not> pins_states r ! hand r \<and> \<not> access_states r ! hand r \<longrightarrow>
            victim_body r = Selected (int (hand r))
              (r\<lparr>pins_states := (pins_states r)[hand r := True],
                 victimized_size := victimized_size r - 1,
                 clock_pointer := int (hand r) + 1\<rparr>))"
proof -
  from assms have n: "0 < length (pins_states r)" by auto
  from assms(1) have cp: "0 \<le> clock_pointer r"
    and len: "length (access_states r) = length (pins_states r)"
    by (simp_all add: replacer_wf_def)
  have h: "hand r < length (pins_states r)" using hand_less n cp by simp
  show ?thesis
    using Victim_evictable [OF assms] body_pinned [OF cp h]
      body_second_chance [OF cp h len] body_select [OF cp h len]
    by blast
qed

theorem Victim_clock_sweep_witness:
  "replacer_wf ex_replacer \<and>
   (\<exists>i<length (pins_states ex_replacer). \<not> pins_states ex_replacer ! i) \<and>
   Victim ex_replacer =
     Some (Inr (Some 0,
       \<lparr>access_states = [False, False, False],
        pins_states = [True, True, False],
        clock_pointer = 1,
        victimized_size = 1\<rparr>))"
  using Victim_clock_sweep [OF ex_replacer_wf ex_replacer_evictable]
    ex_replacer_wf ex_replacer_evictable
  by (simp add: ex_replacer_spec)

text \<open>
  C7. \<open>Victim\<close> always returns. When no frame is evictable it returns "none" and leaves the
  replacer as it was (no sweep: the hand and the reference bits are untouched). When a frame
  is evictable the loop returns a victim within \<open>2 * capacity\<close> iterations, that is, two
  revolutions of the hand. The hypothesis holds of every state the replacer can reach
  (\<open>reachable_wf\<close>).
\<close>

theorem Victim_terminates:
  assumes "replacer_wf r"
  shows "((\<forall>i<length (pins_states r). pins_states r ! i) \<longrightarrow> Victim r = Some (Inr (None, r))) \<and>
         ((\<exists>i<length (pins_states r). \<not> pins_states r ! i) \<longrightarrow>
            (\<exists>v r'. Victim r = Some (Inr (Some v, r')) \<and>
                     victim_within (2 * length (pins_states r)) r = Some (Inr (v, r'))))"
proof (intro conjI impI)
  assume "\<forall>i<length (pins_states r). pins_states r ! i"
  then show "Victim r = Some (Inr (None, r))" using Victim_none assms by simp
next
  assume ex: "\<exists>i<length (pins_states r). \<not> pins_states r ! i"
  show "\<exists>v r'. Victim r = Some (Inr (Some v, r')) \<and>
                     victim_within (2 * length (pins_states r)) r = Some (Inr (v, r'))"
    using Victim_evictable [OF assms ex] victim_within_two_revolutions [OF assms ex]
    by (metis prod.collapse)
qed

theorem Victim_terminates_witness:
  "replacer_wf (ClockReplacer_new 3) \<and>
   Victim (ClockReplacer_new 3) = Some (Inr (None, ClockReplacer_new 3)) \<and>
   replacer_wf ex_replacer \<and>
   (\<exists>v r'. Victim ex_replacer = Some (Inr (Some v, r')) \<and>
            victim_within 6 ex_replacer = Some (Inr (v, r')))"
proof -
  have all: "\<forall>i<length (pins_states (ClockReplacer_new 3)). pins_states (ClockReplacer_new 3) ! i"
    by (simp add: ClockReplacer_new_def)
  have six: "2 * length (pins_states ex_replacer) = 6"
    by (simp add: ex_replacer_def)
  show ?thesis
    using Victim_terminates [OF wf_new, of 3] Victim_terminates [OF ex_replacer_wf]
      all ex_replacer_evictable wf_new [of 3] ex_replacer_wf six
    by simp
qed

text \<open>
  C9. The guard of \<open>Pin\<close> and \<open>Unpin\<close> is \<open>frame_id < size\<close> only, so a negative index passes
  it and the vector is indexed out of bounds. Indices at or beyond the capacity are ignored.
\<close>

theorem Pin_Unpin_negative_index:
  "Pin (ClockReplacer_new 3) (- 1) = Inl OutOfBounds \<and>
   Unpin (ClockReplacer_new 3) (- 1) = Inl OutOfBounds"
  by (simp add: Pin_def Unpin_def in_range_def ClockReplacer_new_def)

lemma Pin_beyond_capacity: "int (length (pins_states r)) \<le> f \<Longrightarrow> Pin r f = Inr r"
  by (simp add: Pin_def)

lemma Unpin_beyond_capacity: "int (length (pins_states r)) \<le> f \<Longrightarrow> Unpin r f = Inr r"
  by (simp add: Unpin_def)

section \<open>Claims about the pool\<close>

lemma pool_fresh_Fetch: "FetchPageImpl pool_fresh 0 = Some (Inr (Some 0, pool_fetched))"
  by (simp add: FetchPageImpl_def getFrameId_def getPageByFrameId_def pickVictimPage_def
      pool_fresh_def pool_fetched_def BufferPoolManager_new_def ClockReplacer_new_def
      pt_insert_def in_range_def Pin_def ResetMemory_def ReadPage_def ex_disk_def)

lemma pool_fetched_Unpin: "UnpinPageImpl pool_fetched 0 dirty = Inr (True, pool_unpinned dirty)"
  by (simp add: UnpinPageImpl_def getFrameId_def getPageByFrameId_def
      pool_fetched_def pool_unpinned_def in_range_def Unpin_def Let_def)

text \<open>
  C1. On a resident dirty page \<open>FlushPageImpl\<close> writes the payload through \<open>WritePage\<close> and
  clears \<open>is_dirty\<close>, but the value it returns is \<open>false\<close>, not \<open>true\<close>: here on the pool
  left by \<open>Fetch(0); Unpin(0, true)\<close>. No call of \<open>FlushPageImpl\<close> returns \<open>true\<close>.
\<close>

theorem FlushPageImpl_returns_false:
  "FlushPageImpl (pool_unpinned True) 0 =
     Inr (False,
       (pool_unpinned True)
         \<lparr>disk_manager := WritePage ex_disk 0 [7, 7],
          pages := [\<lparr>data = [7, 7], page_id = 0, pin_count = 0, is_dirty = False\<rparr>]\<rparr>)"
  by (simp add: FlushPageImpl_def getFrameId_def getPageByFrameId_def pool_unpinned_def
      in_range_def Let_def)

lemma FlushPageImpl_never_true: "FlushPageImpl bpm pid = Inr (b, bpm') \<Longrightarrow> \<not> b"
  by (auto simp: FlushPageImpl_def Let_def split: option.splits if_splits)

text \<open>
  C2. On a hit \<open>FetchPageImpl\<close> pins the frame in the replacer and returns the handle onto
  it, but it does not touch \<open>pin_count\<close>: fetching page 0 again on the pool left by
  \<open>Fetch(0)\<close> leaves the pin count at 1.
\<close>

theorem FetchPageImpl_hit_keeps_pin_count:
  "FetchPageImpl pool_fetched 0 = Some (Inr (Some 0, pool_fetched)) \<and>
   pin_count (pages pool_fetched ! 0) = 1"
  by (simp add: FetchPageImpl_def getFrameId_def getPageByFrameId_def pool_fetched_def
      in_range_def Pin_def)

lemma FetchPageImpl_hit_pages:
  "getFrameId bpm pid = Some f \<Longrightarrow> FetchPageImpl bpm pid = Some (Inr (h, bpm')) \<Longrightarrow>
     pages bpm' = pages bpm \<and> h = Some f"
  by (auto simp: FetchPageImpl_def getPageByFrameId_def split: sum.splits)

text \<open>
  C4. On a resident page with pin count 0 \<open>DeletePageImpl\<close> erases the page-table entry,
  resets the memory and appends the frame to the free list, but it returns \<open>false\<close>, leaves
  the replacer as it was (the frame stays evictable) and never calls \<open>DeallocatePage\<close>.
\<close>

theorem DeletePageImpl_incomplete:
  "DeletePageImpl (pool_unpinned False) 0 = Inr (False, pool_deleted) \<and>
   replacer pool_deleted = replacer (pool_unpinned False) \<and>
   \<not> pins_states (replacer pool_deleted) ! 0 \<and>
   deallocated (disk_manager pool_deleted) = deallocated (disk_manager (pool_unpinned False))"
  by (simp add: DeletePageImpl_def getFrameId_def getPageByFrameId_def pool_unpinned_def
      pool_deleted_def in_range_def Let_def pt_erase_def ResetMemory_def numeral_2_eq_2)

text \<open>
  C5. The invariant "evictable iff pin count 0 and holding a page" holds in the initial pool
  and after \<open>Fetch(0)\<close> and \<open>Unpin(0, false)\<close>, and is then broken both by \<open>DeletePage(0)\<close>
  (the freed frame stays evictable) and by \<open>Fetch(0)\<close> (the frame is pinned in the replacer
  while its pin count stays 0).
\<close>

theorem evictable_invariant_broken:
  "evictable_agrees pool_fresh \<and>
   FetchPageImpl pool_fresh 0 = Some (Inr (Some 0, pool_fetched)) \<and>
   evictable_agrees pool_fetched \<and>
   UnpinPageImpl pool_fetched 0 False = Inr (True, pool_unpinned False) \<and>
   evictable_agrees (pool_unpinned False) \<and>
   DeletePageImpl (pool_unpinned False) 0 = Inr (False, pool_deleted) \<and>
   \<not> evictable_agrees pool_deleted \<and>
   FetchPageImpl (pool_unpinned False) 0 = Some (Inr (Some 0, pool_refetched)) \<and>
   \<not> evictable_agrees pool_refetched"
proof -
  have "evictable_agrees pool_fresh"
    by (simp add: evictable_agrees_def pool_fresh_def BufferPoolManager_new_def
        ClockReplacer_new_def Size_def)
  moreover have "evictable_agrees pool_fetched"
    by (simp add: evictable_agrees_def pool_fetched_def Size_def)
  moreover have "evictable_agrees (pool_unpinned False)"
    by (simp add: evictable_agrees_def pool_unpinned_def Size_def)
  moreover have "DeletePageImpl (pool_unpinned False) 0 = Inr (False, pool_deleted)"
    by (simp add: DeletePageImpl_def getFrameId_def getPageByFrameId_def pool_unpinned_def
      pool_deleted_def in_range_def Let_def pt_erase_def ResetMemory_def numeral_2_eq_2)
  moreover have "\<not> evictable_agrees pool_deleted"
    by (simp add: evictable_agrees_def pool_deleted_def Size_def)
  moreover have "FetchPageImpl (pool_unpinned False) 0 = Some (Inr (Some 0, pool_refetched))"
    by (simp add: FetchPageImpl_def getFrameId_def getPageByFrameId_def pool_unpinned_def
        pool_refetched_def in_range_def Pin_def)
  moreover have "\<not> evictable_agrees pool_refetched"
    by (simp add: evictable_agrees_def pool_refetched_def Size_def)
  ultimately show ?thesis
    using pool_fresh_Fetch pool_fetched_Unpin by simp
qed

text \<open>
  C8. \<open>UnpinPageImpl\<close> on a resident page whose frame has pin count 0 returns \<open>false\<close> and
  the pool it leaves is the pool it was given: page table, free list, frames, replacer and
  disk manager alike.
\<close>

theorem UnpinPageImpl_unpinned_noop:
  assumes "getFrameId bpm pid = Some f"
    and "in_range (pages bpm) f"
    and "pin_count (pages bpm ! nat f) = 0"
  shows "UnpinPageImpl bpm pid dirty = Inr (False, bpm)"
  using assms by (simp add: UnpinPageImpl_def getPageByFrameId_def Let_def)

theorem UnpinPageImpl_unpinned_noop_witness:
  "getFrameId (pool_unpinned False) 0 = Some 0 \<and>
   in_range (pages (pool_unpinned False)) 0 \<and>
   pin_count (pages (pool_unpinned False) ! nat 0) = 0 \<and>
   UnpinPageImpl (pool_unpinned False) 0 True = Inr (False, pool_unpinned False)"
proof -
  have a: "getFrameId (pool_unpinned False) 0 = Some 0"
    by (simp add: getFrameId_def pool_unpinned_def)
  have b: "in_range (pages (pool_unpinned False)) 0"
    by (simp add: in_range_def pool_unpinned_def)
  have c: "pin_count (pages (pool_unpinned False) ! nat 0) = 0"
    by (simp add: pool_unpinned_def)
  from UnpinPageImpl_unpinned_noop [OF a b c, of True] a b c show ?thesis by simp
qed

text \<open>
  C3. When the free list is empty and the replacer hands out a victim frame that is dirty,
  a miss in \<open>FetchPageImpl\<close> and a call of \<open>NewPageImpl\<close> both log exactly one \<open>WritePage\<close>
  of the victim's old identifier with its old payload (so the write precedes the reset and
  the read of the new page), and the page table they leave is the old one with the victim's
  entry erased first and the new entry inserted after. The write-back and the erasure
  happen inside \<open>pickVictimPage\<close>, which is modelled from the spec.
\<close>

theorem dirty_victim_written_back:
  assumes "free_list bpm = []"
    and "Victim (replacer bpm) = Some (Inr (Some f, r'))"
    and "in_range (pages bpm) f"
    and "is_dirty (pages bpm ! nat f)"
  shows "(getFrameId bpm pid = None \<longrightarrow>
            (\<exists>bpm'. FetchPageImpl bpm pid = Some (Inr (Some f, bpm')) \<and>
               written (disk_manager bpm') =
                 written (disk_manager bpm) @ [(page_id (pages bpm ! nat f), data (pages bpm ! nat f))] \<and>
               page_table bpm' =
                 pt_insert pid f (pt_erase (page_id (pages bpm ! nat f)) (page_table bpm)))) \<and>
         (\<not> isAllPined bpm \<longrightarrow>
            (\<exists>bpm'. NewPageImpl bpm = Some (Inr (Some (f, next_page_id (disk_manager bpm)), bpm')) \<and>
               written (disk_manager bpm') =
                 written (disk_manager bpm) @ [(page_id (pages bpm ! nat f), data (pages bpm ! nat f))] \<and>
               page_table bpm' =
                 pt_insert (next_page_id (disk_manager bpm)) f
                   (pt_erase (page_id (pages bpm ! nat f)) (page_table bpm))))"
proof -
  let ?page = "pages bpm ! nat f"
  let ?b1 = "bpm\<lparr>replacer := r',
                 disk_manager := WritePage (disk_manager bpm) (page_id ?page) (data ?page),
                 page_table := pt_erase (page_id ?page) (page_table bpm)\<rparr>"
  have pick: "pickVictimPage bpm = Some (Inr (f, ?b1))"
    using assms by (simp add: pickVictimPage_def Let_def)
  have f0: "0 \<le> f" using assms(3) by (simp add: in_range_def)
  have pin: "\<exists>r''. Pin r' f = Inr r''"
    using f0 by (simp add: Pin_def in_range_def)
  have fetch: "\<exists>bpm'. FetchPageImpl bpm pid = Some (Inr (Some f, bpm')) \<and>
               written (disk_manager bpm') =
                 written (disk_manager bpm) @ [(page_id ?page, data ?page)] \<and>
               page_table bpm' = pt_insert pid f (pt_erase (page_id ?page) (page_table bpm))"
    if "getFrameId bpm pid = None"
  proof -
    from pin obtain r'' where "Pin r' f = Inr r''" by blast
    then show ?thesis
      using that pick f0 assms(3)
      by (simp add: FetchPageImpl_def getPageByFrameId_def Let_def in_range_def WritePage_def)
  qed
  have new: "\<exists>bpm'. NewPageImpl bpm = Some (Inr (Some (f, next_page_id (disk_manager bpm)), bpm')) \<and>
               written (disk_manager bpm') =
                 written (disk_manager bpm) @ [(page_id ?page, data ?page)] \<and>
               page_table bpm' =
                 pt_insert (next_page_id (disk_manager bpm)) f
                   (pt_erase (page_id ?page) (page_table bpm))"
    if "\<not> isAllPined bpm"
    using that pick f0 assms(3)
    by (simp add: NewPageImpl_def getPageByFrameId_def Let_def in_range_def WritePage_def
        AllocatePage_def)
  from fetch new show ?thesis by blast
qed

lemma pool_dirty_Victim:
  "Victim (replacer (pool_unpinned True)) =
     Some (Inr (Some 0, \<lparr>access_states = [False], pins_states = [True],
                          clock_pointer = 1, victimized_size = 0\<rparr>))"
proof -
  let ?r = "replacer (pool_unpinned True)"
  have wf: "replacer_wf ?r" by (simp add: replacer_wf_def pool_unpinned_def)
  have ev: "\<exists>i<length (pins_states ?r). \<not> pins_states ?r ! i"
    by (simp add: pool_unpinned_def)
  have "victim_spec ?r = (0, \<lparr>access_states = [False], pins_states = [True],
                          clock_pointer = 1, victimized_size = 0\<rparr>)"
    by (simp add: victim_spec_def candidates_def sweep_order_def hand_def clear_refs_def
        pool_unpinned_def Let_def)
  with Victim_evictable [OF wf ev] show ?thesis by simp
qed

theorem dirty_victim_written_back_witness:
  "free_list (pool_unpinned True) = [] \<and>
   in_range (pages (pool_unpinned True)) 0 \<and>
   is_dirty (pages (pool_unpinned True) ! nat 0) \<and>
   getFrameId (pool_unpinned True) 1 = None \<and>
   \<not> isAllPined (pool_unpinned True) \<and>
   (\<exists>bpm'. FetchPageImpl (pool_unpinned True) 1 = Some (Inr (Some 0, bpm')) \<and>
      written (disk_manager bpm') = [(0, [7, 7])] \<and> page_table bpm' = [(1, 0)]) \<and>
   (\<exists>bpm'. NewPageImpl (pool_unpinned True) = Some (Inr (Some (0, 0), bpm')) \<and>
      written (disk_manager bpm') = [(0, [7, 7])] \<and> page_table bpm' = [(0, 0)])"
proof -
  let ?b = "pool_unpinned True"
  have a: "free_list ?b = []" by (simp add: pool_unpinned_def)
  have c: "in_range (pages ?b) 0" by (simp add: pool_unpinned_def in_range_def)
  have d: "is_dirty (pages ?b ! nat 0)" by (simp add: pool_unpinned_def)
  have e: "getFrameId ?b 1 = None" by (simp add: getFrameId_def pool_unpinned_def)
  have g: "\<not> isAllPined ?b" by (simp add: isAllPined_def pool_unpinned_def)
  have vals: "written (disk_manager ?b) = []" "page_id (pages ?b ! 0) = 0"
    "data (pages ?b ! 0) = [7, 7]" "next_page_id (disk_manager ?b) = 0"
    "pt_insert 1 0 (pt_erase 0 (page_table ?b)) = [(1, 0)]"
    "pt_insert 0 0 (pt_erase 0 (page_table ?b)) = [(0, 0)]"
    by (simp_all add: pool_unpinned_def ex_disk_def pt_insert_def pt_erase_def)
  from dirty_victim_written_back [OF a pool_dirty_Victim c d, of 1] a c d e g
  show ?thesis by (simp add: vals)
qed

lemma FlushPageImpl_resident:
  assumes "getFrameId bpm pid = Some f" and "in_range (pages bpm) f"
  shows "\<exists>bpm'. FlushPageImpl bpm pid = Inr (False, bpm') \<and>
           page_table bpm' = page_table bpm \<and>
           length (pages bpm') = length (pages bpm) \<and>
           (\<forall>i. is_dirty (pages bpm' ! i) = (is_dirty (pages bpm ! i) \<and> i \<noteq> nat f)) \<and>
           (\<forall>i. data (pages bpm' ! i) = data (pages bpm ! i)) \<and>
           written (disk_manager bpm') =
             written (disk_manager bpm) @
               (if is_dirty (pages bpm ! nat f) then [(pid, data (pages bpm ! nat f))] else [])"
proof (cases "is_dirty (pages bpm ! nat f)")
  case True
  let ?p = "pages bpm ! nat f"
  let ?b = "bpm\<lparr>disk_manager := WritePage (disk_manager bpm) pid (data ?p),
                 pages := (pages bpm)[nat f := ?p\<lparr>is_dirty := False\<rparr>]\<rparr>"
  have lt: "nat f < length (pages bpm)" using assms(2) by (auto simp: in_range_def)
  have "FlushPageImpl bpm pid = Inr (False, ?b)"
    using assms True by (simp add: FlushPageImpl_def getPageByFrameId_def Let_def)
  moreover have "\<forall>i. is_dirty (pages ?b ! i) = (is_dirty (pages bpm ! i) \<and> i \<noteq> nat f)"
    using lt by (simp add: nth_list_update)
  moreover have "\<forall>i. data (pages ?b ! i) = data (pages bpm ! i)"
    using lt by (simp add: nth_list_update)
  moreover have "written (disk_manager ?b) = written (disk_manager bpm) @ [(pid, data ?p)]"
    by (simp add: WritePage_def)
  ultimately show ?thesis using True by simp
next
  case False
  have "FlushPageImpl bpm pid = Inr (False, bpm)"
    using assms False by (simp add: FlushPageImpl_def getPageByFrameId_def Let_def)
  moreover have "\<forall>i. is_dirty (pages bpm ! i) = (is_dirty (pages bpm ! i) \<and> i \<noteq> nat f)"
    using False by auto
  ultimately show ?thesis using False by simp
qed

lemma flush_each_entries:
  assumes "distinct (map fst (page_table bpm))"
    and "set es \<subseteq> set (page_table bpm)"
    and "distinct (map snd es)"
    and "\<forall>e \<in> set es. in_range (pages bpm) (snd e)"
  shows "\<exists>bpm'. flush_each (map fst es) bpm = Inr bpm' \<and>
           page_table bpm' = page_table bpm \<and>
           length (pages bpm') = length (pages bpm) \<and>
           (\<forall>i. is_dirty (pages bpm' ! i) = (is_dirty (pages bpm ! i) \<and> int i \<notin> snd ` set es)) \<and>
           (\<forall>i. data (pages bpm' ! i) = data (pages bpm ! i)) \<and>
           written (disk_manager bpm') =
             written (disk_manager bpm) @
               map (\<lambda>e. (fst e, data (pages bpm ! nat (snd e))))
                 (filter (\<lambda>e. is_dirty (pages bpm ! nat (snd e))) es)"
  using assms
proof (induction es arbitrary: bpm)
  case Nil
  then show ?case by simp
next
  case (Cons e es)
  obtain p f where e: "e = (p, f)" by (cases e)
  have mem: "(p, f) \<in> set (page_table bpm)" using Cons.prems(2) e by simp
  have look: "getFrameId bpm p = Some f"
    using Cons.prems(1) mem by (simp add: getFrameId_def)
  have rng: "in_range (pages bpm) f" using Cons.prems(4) e by simp
  then have f0: "0 \<le> f" by (simp add: in_range_def)
  from FlushPageImpl_resident [OF look rng] obtain b1 where
    b1: "FlushPageImpl bpm p = Inr (False, b1)"
      "page_table b1 = page_table bpm"
      "length (pages b1) = length (pages bpm)"
      "\<forall>i. is_dirty (pages b1 ! i) = (is_dirty (pages bpm ! i) \<and> i \<noteq> nat f)"
      "\<forall>i. data (pages b1 ! i) = data (pages bpm ! i)"
      "written (disk_manager b1) =
         written (disk_manager bpm) @
           (if is_dirty (pages bpm ! nat f) then [(p, data (pages bpm ! nat f))] else [])"
    by blast
  have others: "nat (snd x) \<noteq> nat f" if "x \<in> set es" for x
  proof -
    from that Cons.prems(3) e have "snd x \<noteq> f" by auto
    moreover from that Cons.prems(4) have "0 \<le> snd x" by (simp add: in_range_def)
    ultimately show ?thesis using f0 by simp
  qed
  have p1: "distinct (map fst (page_table b1))" using Cons.prems(1) b1(2) by simp
  have p2: "set es \<subseteq> set (page_table b1)" using Cons.prems(2) b1(2) by simp
  have p3: "distinct (map snd es)" using Cons.prems(3) by simp
  have p4: "\<forall>x \<in> set es. in_range (pages b1) (snd x)"
    using Cons.prems(4) b1(3) by (simp add: in_range_def)
  from Cons.IH [OF p1 p2 p3 p4] obtain b2 where
    b2: "flush_each (map fst es) b1 = Inr b2"
      "page_table b2 = page_table b1"
      "length (pages b2) = length (pages b1)"
      "\<forall>i. is_dirty (pages b2 ! i) = (is_dirty (pages b1 ! i) \<and> int i \<notin> snd ` set es)"
      "\<forall>i. data (pages b2 ! i) = data (pages b1 ! i)"
      "written (disk_manager b2) =
         written (disk_manager b1) @
           map (\<lambda>x. (fst x, data (pages b1 ! nat (snd x))))
             (filter (\<lambda>x. is_dirty (pages b1 ! nat (snd x))) es)"
    by blast
  have filt: "filter (\<lambda>x. is_dirty (pages b1 ! nat (snd x))) es =
              filter (\<lambda>x. is_dirty (pages bpm ! nat (snd x))) es"
    by (rule filter_cong) (simp_all add: b1(4) others)
  have run: "flush_each (map fst (e # es)) bpm = Inr b2"
    using b1(1) b2(1) e by simp
  have dirty: "\<forall>i. is_dirty (pages b2 ! i) =
                 (is_dirty (pages bpm ! i) \<and> int i \<notin> snd ` set (e # es))"
  proof
    fix i
    have "(i \<noteq> nat f) = (int i \<noteq> f)" using f0 by auto
    then show "is_dirty (pages b2 ! i) =
                 (is_dirty (pages bpm ! i) \<and> int i \<notin> snd ` set (e # es))"
      using b2(4) b1(4) e by auto
  qed
  have log: "written (disk_manager b2) =
             written (disk_manager bpm) @
               map (\<lambda>x. (fst x, data (pages bpm ! nat (snd x))))
                 (filter (\<lambda>x. is_dirty (pages bpm ! nat (snd x))) (e # es))"
    using b2(6) b1(6) b1(5) e by (simp add: filt)
  show ?case
    using run dirty log b2(2) b2(3) b2(5) b1(2) b1(3) b1(5) by simp
qed

lemma entries_of_key:
  "distinct (map fst pt) \<Longrightarrow>
     filter (\<lambda>e. fst e = pid) pt = (case map_of pt pid of None \<Rightarrow> [] | Some f \<Rightarrow> [(pid, f)])"
proof (induction pt)
  case Nil
  then show ?case by simp
next
  case (Cons e pt)
  obtain p f where e: "e = (p, f)" by (cases e)
  show ?case
  proof (cases "p = pid")
    case True
    then have "pid \<notin> fst ` set pt" using Cons.prems e by auto
    then have "filter (\<lambda>e. fst e = pid) pt = []"
      by (auto simp: filter_empty_conv)
    then show ?thesis using True e by simp
  next
    case False
    then show ?thesis using Cons e by simp
  qed
qed

text \<open>
  C10. On a pool whose page table is well formed, \<open>FlushAllPagesImpl\<close> returns; afterwards
  the page table is the same and every resident page is clean; the \<open>WritePage\<close> calls it made
  are one per entry that was dirty at the start, with that page's identifier and payload, in
  iteration order: so an identifier is written exactly once when its page was resident and
  dirty, and not at all otherwise.
\<close>

theorem FlushAllPagesImpl_flushes:
  assumes "page_table_wf bpm"
  shows "\<exists>bpm' ws. FlushAllPagesImpl bpm = Inr bpm' \<and>
           page_table bpm' = page_table bpm \<and>
           list_all (\<lambda>e. \<not> is_dirty (pages bpm' ! nat (snd e))) (page_table bpm') \<and>
           written (disk_manager bpm') = written (disk_manager bpm) @ ws \<and>
           ws = map (\<lambda>e. (fst e, data (pages bpm ! nat (snd e)))) (dirty_entries bpm) \<and>
           (\<forall>pid. length (filter (\<lambda>w. fst w = pid) ws) =
              (case getFrameId bpm pid of
                 None \<Rightarrow> 0
               | Some f \<Rightarrow> if is_dirty (pages bpm ! nat f) then 1 else 0))"
proof -
  let ?pt = "page_table bpm"
  let ?ws = "map (\<lambda>e. (fst e, data (pages bpm ! nat (snd e)))) (dirty_entries bpm)"
  from assms have d1: "distinct (map fst ?pt)" and d2: "distinct (map snd ?pt)"
    and rng: "\<forall>e \<in> set ?pt. in_range (pages bpm) (snd e)"
    by (simp_all add: page_table_wf_def list_all_iff)
  from flush_each_entries [OF d1 subset_refl d2 rng] obtain b where
    b: "flush_each (map fst ?pt) bpm = Inr b"
      "page_table b = ?pt"
      "\<forall>i. is_dirty (pages b ! i) = (is_dirty (pages bpm ! i) \<and> int i \<notin> snd ` set ?pt)"
      "written (disk_manager b) = written (disk_manager bpm) @ ?ws"
    unfolding dirty_entries_def by blast
  have clean: "list_all (\<lambda>e. \<not> is_dirty (pages b ! nat (snd e))) (page_table b)"
    unfolding list_all_iff
  proof
    fix e assume e: "e \<in> set (page_table b)"
    then have "0 \<le> snd e" using rng b(2) by (simp add: in_range_def)
    then have "int (nat (snd e)) \<in> snd ` set ?pt" using e b(2) by simp
    then show "\<not> is_dirty (pages b ! nat (snd e))" using b(3) by simp
  qed
  have count: "length (filter (\<lambda>w. fst w = pid) ?ws) =
              (case getFrameId bpm pid of
                 None \<Rightarrow> 0
               | Some f \<Rightarrow> if is_dirty (pages bpm ! nat f) then 1 else 0)" for pid
  proof -
    have "length (filter (\<lambda>w. fst w = pid) ?ws) =
          length (filter (\<lambda>e. is_dirty (pages bpm ! nat (snd e))) (filter (\<lambda>e. fst e = pid) ?pt))"
      by (simp add: dirty_entries_def filter_map comp_def conj_commute)
    then show ?thesis
      by (simp add: entries_of_key [OF d1] getFrameId_def split: option.splits)
  qed
  show ?thesis
    using b(1) b(2) clean b(4) count by (simp add: FlushAllPagesImpl_def)
qed

lemma pool_two_wf: "page_table_wf pool_two"
  by (simp add: page_table_wf_def pool_two_def in_range_def)

theorem FlushAllPagesImpl_flushes_witness:
  "page_table_wf pool_two \<and>
   (\<exists>bpm'. FlushAllPagesImpl pool_two = Inr bpm' \<and>
      page_table bpm' = [(0, 0), (1, 1)] \<and>
      list_all (\<lambda>e. \<not> is_dirty (pages bpm' ! nat (snd e))) (page_table bpm') \<and>
      written (disk_manager bpm') = [(0, [7, 7])])"
proof -
  have vals: "page_table pool_two = [(0, 0), (1, 1)]"
    "written (disk_manager pool_two) = []"
    "map (\<lambda>e. (fst e, data (pages pool_two ! nat (snd e)))) (dirty_entries pool_two) = [(0, [7, 7])]"
    by (simp_all add: pool_two_def ex_disk_def dirty_entries_def)
  from FlushAllPagesImpl_flushes [OF pool_two_wf] pool_two_wf show ?thesis
    by (auto simp: vals)
qed

end
